theory Spec2Isabelle
  imports Main
begin

section \<open>goBili: a shallow embedding of the parser, the credential store and the page selection\<close>

text \<open>
  The Go sources embedded here are the parser package (URL resolution, stream resolution
  and quality selection), \<open>auth.AuthManager.SetCookiesFromString\<close> and the page-range
  handling of the download command. Go's \<open>int\<close> and \<open>int64\<close> are modelled as \<open>int\<close>;
  the one place where the 64-bit range matters (the counting loop of \<open>parsePageRange\<close>
  and the overflow check of \<open>fmt.Sscanf\<close>) writes the bounds out. Go strings are byte
  strings, modelled as \<open>string\<close>. Slices of struct pointers are lists of records whose
  entries are never nil. Network exchanges are a parameter of the model: a record of
  functions that give, for each request, either the error of the exchange or the decoded reply.
\<close>

subsection \<open>Errors\<close>

datatype error =
    RequestFailed string
  | APIError string
  | StreamsAPIError int
  | LegacyStreamsAPIError int
  | NoPagesFound
  | BVIDNotFound
  | VideoInfoFailed error
  | InvalidRangeFormat string
  | InvalidStartPage string
  | InvalidEndPage string
  | StartAfterEnd int int
  | InvalidPageNumber string
  | InvalidPagesParameter error

subsection \<open>Data model of the parser package\<close>

record PageInfo =
  pg_CID :: int
  pg_Part :: string
  pg_Title :: string
  pg_Duration :: int
  pg_Page :: int

record EpisodeInfo =
  ep_BVID :: string
  ep_CID :: int
  ep_Title :: string
  ep_Duration :: int
  ep_Index :: int

record VideoInfo =
  BVID :: string
  AID :: int
  Title :: string
  Desc :: string
  Duration :: int
  Type :: string
  Episodes :: "EpisodeInfo list"
  Pages :: "PageInfo list"

record StreamInfo =
  Quality :: int
  Format :: string
  VideoURL :: string
  AudioURL :: string
  VideoCodecs :: string
  AudioCodecs :: string
  Bandwidth :: int
  Resolution :: string

text \<open>The decoded reply of the item-metadata endpoint (\<open>APIResponse\<close> with its
  \<open>VideoAPIResponse\<close> payload).\<close>

record VideoAPIResponse =
  r_Code :: int
  r_Message :: string
  r_BVID :: string
  r_AID :: int
  r_Title :: string
  r_Desc :: string
  r_Duration :: int
  r_Pages :: "PageInfo list"

text \<open>The decoded reply of the modern playback endpoint.\<close>

record DashVideo =
  v_ID :: int
  v_BaseURL :: string
  v_BackupURL :: "string list"
  v_Bandwidth :: int
  v_MimeType :: string
  v_Codecs :: string
  v_Width :: int
  v_Height :: int
  v_FrameRate :: string

record DashAudio =
  a_ID :: int
  a_BaseURL :: string
  a_BackupURL :: "string list"
  a_Bandwidth :: int
  a_MimeType :: string
  a_Codecs :: string

record DashReply =
  d_Code :: int
  d_Video :: "DashVideo list"
  d_Audio :: "DashAudio list"
  d_AcceptQuality :: "int list"
  d_AcceptDescription :: "string list"

text \<open>The decoded reply of the legacy playback endpoint.\<close>

record DURL =
  u_URL :: string
  u_Size :: int
  u_Length :: int

record LegacyReply =
  l_Code :: int
  l_DURL :: "DURL list"
  l_Quality :: int

text \<open>The platform as the parser sees it: each request either fails (building the
  request, the transport, reading or decoding the body) or gives a decoded reply.\<close>

record platform =
  view :: "string \<Rightarrow> string + VideoAPIResponse"
  playurl :: "string \<Rightarrow> int \<Rightarrow> string + DashReply"
  playurl_legacy :: "string \<Rightarrow> int \<Rightarrow> string + LegacyReply"

subsection \<open>Decimal rendering (\<open>%d\<close> of \<open>fmt.Sprintf\<close>)\<close>

definition digit_char :: "nat \<Rightarrow> char" where
  "digit_char n = char_of (48 + n)"

fun show_nat :: "nat \<Rightarrow> string" where
  "show_nat n = (if n < 10 then [digit_char n] else show_nat (n div 10) @ [digit_char (n mod 10)])"

declare show_nat.simps [simp del]

definition fmt_d :: "int \<Rightarrow> string" where
  "fmt_d i = (if i < 0 then CHR ''-'' # show_nat (nat (- i)) else show_nat (nat i))"

subsection \<open>Stream resolution\<close>

definition qualityMap :: "int \<Rightarrow> int option" where
  "qualityMap = map_of [(80, 80), (64, 64), (32, 32), (16, 16)]"

definition dash_stream :: "DashAudio list \<Rightarrow> DashVideo \<Rightarrow> int \<Rightarrow> StreamInfo" where
  "dash_stream audio video quality =
     \<lparr> Quality = quality,
       Format = ''mp4'',
       VideoURL = v_BaseURL video,
       AudioURL = (case audio of [] \<Rightarrow> [] | a # _ \<Rightarrow> a_BaseURL a),
       VideoCodecs = v_Codecs video,
       AudioCodecs = (case audio of [] \<Rightarrow> [] | a # _ \<Rightarrow> a_Codecs a),
       Bandwidth = v_Bandwidth video,
       Resolution = fmt_d (v_Width video) @ ''x'' @ fmt_d (v_Height video) \<rparr>"

text \<open>The loop over \<open>apiResp.Data.Dash.Video\<close>: a rendition whose id is not a key of
  \<open>qualityMap\<close> is skipped, every other one is appended.\<close>

fun dash_streams :: "DashAudio list \<Rightarrow> DashVideo list \<Rightarrow> StreamInfo list" where
  "dash_streams audio [] = []"
| "dash_streams audio (video # rest) =
     (case qualityMap (v_ID video) of
        None \<Rightarrow> dash_streams audio rest
      | Some quality \<Rightarrow> dash_stream audio video quality # dash_streams audio rest)"

definition legacy_stream :: "int \<Rightarrow> DURL \<Rightarrow> StreamInfo" where
  "legacy_stream quality durl =
     \<lparr> Quality = quality,
       Format = ''flv'',
       VideoURL = u_URL durl,
       AudioURL = [],
       VideoCodecs = ''avc1'',
       AudioCodecs = ''mp4a'',
       Bandwidth = 0,
       Resolution = ''unknown'' \<rparr>"

definition getLegacyVideoStreams :: "platform \<Rightarrow> string \<Rightarrow> int \<Rightarrow> error + StreamInfo list" where
  "getLegacyVideoStreams w bvid cid =
     (case playurl_legacy w bvid cid of
        Inl e \<Rightarrow> Inl (RequestFailed e)
      | Inr apiResp \<Rightarrow>
          if l_Code apiResp \<noteq> 0 then Inl (LegacyStreamsAPIError (l_Code apiResp))
          else Inr (map (legacy_stream (l_Quality apiResp)) (l_DURL apiResp)))"

definition getVideoStreamsByCID :: "platform \<Rightarrow> string \<Rightarrow> int \<Rightarrow> error + StreamInfo list" where
  "getVideoStreamsByCID w bvid cid =
     (case playurl w bvid cid of
        Inl e \<Rightarrow> Inl (RequestFailed e)
      | Inr apiResp \<Rightarrow>
          if d_Code apiResp \<noteq> 0 then Inl (StreamsAPIError (d_Code apiResp))
          else
            let streams = dash_streams (d_Audio apiResp) (d_Video apiResp)
            in if length streams = 0 then getLegacyVideoStreams w bvid cid
               else Inr streams)"

definition GetVideoStreamsForPage :: "platform \<Rightarrow> VideoInfo \<Rightarrow> int \<Rightarrow> error + StreamInfo list" where
  "GetVideoStreamsForPage w videoInfo pageNum =
     (if length (Pages videoInfo) > 0 then
        let cid = (if pageNum > 0 \<and> pageNum \<le> int (length (Pages videoInfo))
                   then pg_CID (Pages videoInfo ! nat (pageNum - 1))
                   else pg_CID (Pages videoInfo ! 0))
        in getVideoStreamsByCID w (BVID videoInfo) cid
      else Inl NoPagesFound)"

definition GetVideoStreams :: "platform \<Rightarrow> VideoInfo \<Rightarrow> error + StreamInfo list" where
  "GetVideoStreams w videoInfo = GetVideoStreamsForPage w videoInfo 1"

subsection \<open>Quality selection\<close>

text \<open>The selection functions return a pointer into the slice (\<open>nil\<close> is \<open>None\<close>). They
  are stated over every extension of the record, so a result is the same variant as
  another also when the entries carry more than the eight fields.\<close>

fun best_loop :: "'a StreamInfo_scheme \<Rightarrow> 'a StreamInfo_scheme list \<Rightarrow> 'a StreamInfo_scheme" where
  "best_loop best [] = best"
| "best_loop best (stream # rest) =
     best_loop (if Quality stream > Quality best then stream else best) rest"

definition GetBestQualityStream :: "'a StreamInfo_scheme list \<Rightarrow> 'a StreamInfo_scheme option" where
  "GetBestQualityStream streams =
     (case streams of [] \<Rightarrow> None | first # rest \<Rightarrow> Some (best_loop first rest))"

definition labelQualityMap :: "string \<Rightarrow> int option" where
  "labelQualityMap =
     map_of [(''best'', 80), (''1080p'', 80), (''720p'', 64), (''480p'', 32), (''360p'', 16)]"

fun find_quality :: "int \<Rightarrow> 'a StreamInfo_scheme list \<Rightarrow> 'a StreamInfo_scheme option" where
  "find_quality targetQuality [] = None"
| "find_quality targetQuality (stream # rest) =
     (if Quality stream = targetQuality then Some stream else find_quality targetQuality rest)"

definition GetStreamByQuality :: "'a StreamInfo_scheme list \<Rightarrow> string \<Rightarrow> 'a StreamInfo_scheme option" where
  "GetStreamByQuality streams quality =
     (case labelQualityMap quality of
        None \<Rightarrow> GetBestQualityStream streams
      | Some targetQuality \<Rightarrow>
          (case find_quality targetQuality streams of
             Some stream \<Rightarrow> Some stream
           | None \<Rightarrow> GetBestQualityStream streams))"

subsection \<open>Item metadata (\<open>getVideoInfo\<close>, \<open>parseVideoURL\<close>)\<close>

definition alnum :: "char \<Rightarrow> bool" where
  "alnum c = (let n = (of_char c :: nat)
              in (97 \<le> n \<and> n \<le> 122) \<or> (65 \<le> n \<and> n \<le> 90) \<or> (48 \<le> n \<and> n \<le> 57))"

text \<open>\<open>FindString\<close> of the pattern \<open>BV[a-zA-Z0-9]+\<close>: the leftmost match, as long as
  it can be; the empty string when there is none.\<close>

fun find_BVID :: "string \<Rightarrow> string" where
  "find_BVID [] = []"
| "find_BVID (c # cs) =
     (if c = CHR ''B'' \<and> (case cs of d # e # _ \<Rightarrow> d = CHR ''V'' \<and> alnum e | _ \<Rightarrow> False)
      then CHR ''B'' # CHR ''V'' # takeWhile alnum (tl cs)
      else find_BVID cs)"

definition getVideoInfo :: "platform \<Rightarrow> string \<Rightarrow> error + VideoInfo" where
  "getVideoInfo w bvid =
     (case view w bvid of
        Inl e \<Rightarrow> Inl (RequestFailed e)
      | Inr apiResp \<Rightarrow>
          if r_Code apiResp \<noteq> 0 then Inl (APIError (r_Message apiResp))
          else Inr \<lparr> BVID = r_BVID apiResp,
                     AID = r_AID apiResp,
                     Title = r_Title apiResp,
                     Desc = r_Desc apiResp,
                     Duration = r_Duration apiResp,
                     Type = [],
                     Episodes = [],
                     Pages = r_Pages apiResp \<rparr>)"

definition page_episode :: "VideoInfo \<Rightarrow> PageInfo \<Rightarrow> EpisodeInfo" where
  "page_episode videoInfo page =
     (let episodeTitle = pg_Part page;
          episodeTitle = (if episodeTitle = [] then Title videoInfo @ '' - P'' @ fmt_d (pg_Page page)
                          else episodeTitle)
      in \<lparr> ep_BVID = BVID videoInfo,
           ep_CID = pg_CID page,
           ep_Title = episodeTitle,
           ep_Duration = pg_Duration page,
           ep_Index = pg_Page page \<rparr>)"

text \<open>The loop \<open>for i, page := range videoInfo.Pages\<close> stores the episode of the
  \<open>i\<close>-th page at position \<open>i\<close> of a slice made with the length of the page list.\<close>

fun fill_episodes :: "VideoInfo \<Rightarrow> nat \<Rightarrow> PageInfo list \<Rightarrow> EpisodeInfo option list \<Rightarrow> EpisodeInfo option list" where
  "fill_episodes videoInfo i [] episodes = episodes"
| "fill_episodes videoInfo i (page # rest) episodes =
     fill_episodes videoInfo (i + 1) rest (episodes[i := Some (page_episode videoInfo page)])"

definition pages_to_episodes :: "VideoInfo \<Rightarrow> EpisodeInfo list" where
  "pages_to_episodes videoInfo =
     List.map_filter id
       (fill_episodes videoInfo 0 (Pages videoInfo) (replicate (length (Pages videoInfo)) None))"

definition parseVideoURL :: "platform \<Rightarrow> string \<Rightarrow> error + VideoInfo" where
  "parseVideoURL w rawURL =
     (let bvid = find_BVID rawURL
      in if bvid = [] then Inl BVIDNotFound
         else case getVideoInfo w bvid of
                Inl e \<Rightarrow> Inl (VideoInfoFailed e)
              | Inr videoInfo \<Rightarrow>
                  if length (Pages videoInfo) > 1
                  then Inr (videoInfo\<lparr> Type := ''playlist'',
                                       Episodes := pages_to_episodes videoInfo \<rparr>)
                  else Inr (videoInfo\<lparr> Type := ''video'' \<rparr>))"

subsection \<open>String functions of the Go library\<close>

text \<open>\<open>strings.Split\<close> with a one-byte separator: one more piece than there are
  separators.\<close>

fun Split :: "string \<Rightarrow> char \<Rightarrow> string list" where
  "Split [] sep = [[]]"
| "Split (c # cs) sep =
     (if c = sep then [] # Split cs sep
      else case Split cs sep of
             [] \<Rightarrow> [[c]]
           | piece # pieces \<Rightarrow> (c # piece) # pieces)"

text \<open>\<open>strings.SplitN(s, sep, 2)\<close>: the text before the first separator and all the
  text after it, or the whole string alone when there is no separator.\<close>

definition SplitN2 :: "string \<Rightarrow> char \<Rightarrow> string list" where
  "SplitN2 s sep =
     (if sep \<in> set s then [takeWhile (\<lambda>c. c \<noteq> sep) s, tl (dropWhile (\<lambda>c. c \<noteq> sep) s)]
      else [s])"

text \<open>White space is the ASCII white space (tab, line feed, vertical tab, form feed,
  carriage return, space); the multi-byte spaces of Unicode are left out of the model.\<close>

definition isSpace :: "char \<Rightarrow> bool" where
  "isSpace c = ((of_char c :: nat) \<in> {9, 10, 11, 12, 13, 32})"

definition TrimSpace :: "string \<Rightarrow> string" where
  "TrimSpace s = rev (dropWhile isSpace (rev (dropWhile isSpace s)))"

subsection \<open>The credential store (\<open>auth.AuthManager\<close>)\<close>

record AuthManager =
  cookies :: "string \<rightharpoonup> string"
  userAgent :: string
  configDir :: string

definition NewAuthManager :: "string \<Rightarrow> AuthManager" where
  "NewAuthManager dir =
     \<lparr> cookies = Map.empty,
       userAgent = ''Mozilla/5.0 (Macintosh; Intel Mac OS X 10_15_7) AppleWebKit/537.36 (KHTML, like Gecko) Chrome/120.0.0.0 Safari/537.36'',
       configDir = dir \<rparr>"

fun set_cookies_loop :: "string list \<Rightarrow> (string \<rightharpoonup> string) \<Rightarrow> (string \<rightharpoonup> string)" where
  "set_cookies_loop [] m = m"
| "set_cookies_loop (cookie # rest) m =
     (let cookie = TrimSpace cookie
      in if cookie = [] then set_cookies_loop rest m
         else let parts = SplitN2 cookie CHR ''=''
              in if length parts \<noteq> 2 then set_cookies_loop rest m
                 else set_cookies_loop rest (m(TrimSpace (parts ! 0) \<mapsto> TrimSpace (parts ! 1))))"

text \<open>The result is the returned error (\<open>None\<close> is \<open>nil\<close>) and the manager after the call.\<close>

definition SetCookiesFromString :: "AuthManager \<Rightarrow> string \<Rightarrow> error option \<times> AuthManager" where
  "SetCookiesFromString am cookieStr =
     (None, am\<lparr> cookies := set_cookies_loop (Split cookieStr CHR '';'') (cookies am) \<rparr>)"

subsection \<open>Page selection of the download command\<close>

text \<open>\<open>parseInt\<close> is \<open>fmt.Sscanf(s, "%d", &result)\<close>. The scanner of the Go library skips
  leading white space (a line feed in the input is an error, since the format has none),
  takes an optional sign and then at least one decimal digit, and leaves the rest of the
  input unread; a value outside the 64-bit range is an error. \<open>None\<close> is a non-nil error.\<close>

fun SkipSpace :: "string \<Rightarrow> string option" where
  "SkipSpace [] = Some []"
| "SkipSpace (c # cs) =
     (if c = CHR 0x0D \<and> (case cs of d # _ \<Rightarrow> d = CHR 0x0A | [] \<Rightarrow> False) then SkipSpace cs
      else if c = CHR 0x0A then None
      else if isSpace c then SkipSpace cs
      else Some (c # cs))"

definition isDigit :: "char \<Rightarrow> bool" where
  "isDigit c = (48 \<le> (of_char c :: nat) \<and> (of_char c :: nat) \<le> 57)"

definition digits_value :: "string \<Rightarrow> int" where
  "digits_value ds = foldl (\<lambda>acc c. 10 * acc + (int (of_char c) - 48)) 0 ds"

definition parseInt :: "string \<Rightarrow> int option" where
  "parseInt s =
     (case SkipSpace s of
        None \<Rightarrow> None
      | Some [] \<Rightarrow> None
      | Some (c # cs) \<Rightarrow>
          let negative = (c = CHR ''-'');
              rest = (if c = CHR ''+'' \<or> c = CHR ''-'' then cs else c # cs);
              ds = takeWhile isDigit rest
          in if ds = [] then None
             else let v = (if negative then - digits_value ds else digits_value ds)
                  in if v < - (2 ^ 63) \<or> 2 ^ 63 - 1 < v then None else Some v)"

text \<open>The loop \<open>for i := start; i <= end; i++\<close> on 64-bit integers: the increment wraps,
  so the loop does not end when \<open>end\<close> is the largest integer. Not returning is \<open>None\<close>.\<close>

definition incr64 :: "int \<Rightarrow> int" where
  "incr64 i = (if i = 2 ^ 63 - 1 then - (2 ^ 63) else i + 1)"

partial_function (option) range_loop :: "int \<Rightarrow> int \<Rightarrow> int list \<Rightarrow> int list option" where
  "range_loop i end_page indices =
     (if i \<le> end_page then range_loop (incr64 i) end_page (indices @ [i]) else Some indices)"

fun parse_parts :: "string list \<Rightarrow> int list \<Rightarrow> (error + int list) option" where
  "parse_parts [] indices = Some (Inr indices)"
| "parse_parts (part # rest) indices =
     (let part = TrimSpace part
      in if CHR ''-'' \<in> set part then
           let rangeParts = Split part CHR ''-''
           in if length rangeParts \<noteq> 2 then Some (Inl (InvalidRangeFormat part))
              else case parseInt (rangeParts ! 0) of
                     None \<Rightarrow> Some (Inl (InvalidStartPage (rangeParts ! 0)))
                   | Some start \<Rightarrow>
                      (case parseInt (rangeParts ! 1) of
                         None \<Rightarrow> Some (Inl (InvalidEndPage (rangeParts ! 1)))
                       | Some end_page \<Rightarrow>
                           if start > end_page then Some (Inl (StartAfterEnd start end_page))
                           else (case range_loop start end_page indices of
                                   None \<Rightarrow> None
                                 | Some indices' \<Rightarrow> parse_parts rest indices'))
         else case parseInt part of
                None \<Rightarrow> Some (Inl (InvalidPageNumber part))
              | Some page \<Rightarrow> parse_parts rest (indices @ [page]))"

definition parsePageRange :: "string \<Rightarrow> int \<Rightarrow> (error + int list) option" where
  "parsePageRange pages maxPages = parse_parts (Split pages CHR '','') []"

text \<open>The first part of \<open>downloadPlaylist\<close>: the episodes to download, or the error
  the command returns before downloading anything.\<close>

fun select_loop :: "EpisodeInfo list \<Rightarrow> int list \<Rightarrow> EpisodeInfo list \<Rightarrow> EpisodeInfo list" where
  "select_loop episodes [] episodesToDownload = episodesToDownload"
| "select_loop episodes (idx # rest) episodesToDownload =
     select_loop episodes rest
       (if idx > 0 \<and> idx \<le> int (length episodes)
        then episodesToDownload @ [episodes ! nat (idx - 1)]
        else episodesToDownload)"

definition episodesToDownload :: "VideoInfo \<Rightarrow> string \<Rightarrow> (error + EpisodeInfo list) option" where
  "episodesToDownload videoInfo pages =
     (if pages = ''all'' then Some (Inr (Episodes videoInfo))
      else case parsePageRange pages (int (length (Episodes videoInfo))) of
             None \<Rightarrow> None
           | Some (Inl err) \<Rightarrow> Some (Inl (InvalidPagesParameter err))
           | Some (Inr indices) \<Rightarrow> Some (Inr (select_loop (Episodes videoInfo) indices [])))"

subsection \<open>Example replies of the platform\<close>

text \<open>A modern playback reply that lists the 1080p rendition twice, once per codec.\<close>

definition two_codecs_reply :: DashReply where
  "two_codecs_reply =
     \<lparr> d_Code = 0,
       d_Video =
         [\<lparr> v_ID = 80, v_BaseURL = ''https://cdn/avc.m4s'', v_BackupURL = [], v_Bandwidth = 2000000,
            v_MimeType = ''video/mp4'', v_Codecs = ''avc1.640032'', v_Width = 1920, v_Height = 1080,
            v_FrameRate = ''30'' \<rparr>,
          \<lparr> v_ID = 80, v_BaseURL = ''https://cdn/hevc.m4s'', v_BackupURL = [], v_Bandwidth = 1500000,
            v_MimeType = ''video/mp4'', v_Codecs = ''hev1.1.6.L120.90'', v_Width = 1920, v_Height = 1080,
            v_FrameRate = ''30'' \<rparr>],
       d_Audio =
         [\<lparr> a_ID = 30280, a_BaseURL = ''https://cdn/audio.m4s'', a_BackupURL = [], a_Bandwidth = 128000,
            a_MimeType = ''audio/mp4'', a_Codecs = ''mp4a.40.2'' \<rparr>],
       d_AcceptQuality = [80, 64, 32, 16],
       d_AcceptDescription = [] \<rparr>"

definition two_codecs_platform :: platform where
  "two_codecs_platform =
     \<lparr> view = (\<lambda>bvid. Inl ''unused''),
       playurl = (\<lambda>bvid cid. Inr two_codecs_reply),
       playurl_legacy = (\<lambda>bvid cid. Inl ''unused'') \<rparr>"

text \<open>An old item: no modern renditions, and a legacy reply at quality 6 (240p).\<close>

definition old_item_platform :: platform where
  "old_item_platform =
     \<lparr> view = (\<lambda>bvid. Inl ''unused''),
       playurl = (\<lambda>bvid cid. Inr \<lparr> d_Code = 0, d_Video = [], d_Audio = [],
                                   d_AcceptQuality = [], d_AcceptDescription = [] \<rparr>),
       playurl_legacy = (\<lambda>bvid cid. Inr \<lparr> l_Code = 0,
                                          l_DURL = [\<lparr> u_URL = ''https://cdn/old.flv'', u_Size = 1000, u_Length = 60 \<rparr>],
                                          l_Quality = 6 \<rparr>) \<rparr>"

text \<open>An item of two pages whose page numbers are 1 and 3, the second with no part title.\<close>

definition gap_reply :: VideoAPIResponse where
  "gap_reply =
     \<lparr> r_Code = 0, r_Message = ''0'', r_BVID = ''BV1qt4y1X7TW'', r_AID = 170001,
       r_Title = ''Lectures'', r_Desc = [], r_Duration = 300,
       r_Pages =
         [\<lparr> pg_CID = 1001, pg_Part = ''Intro'', pg_Title = [], pg_Duration = 100, pg_Page = 1 \<rparr>,
          \<lparr> pg_CID = 1003, pg_Part = [], pg_Title = [], pg_Duration = 200, pg_Page = 3 \<rparr>] \<rparr>"

definition gap_platform :: platform where
  "gap_platform =
     \<lparr> view = (\<lambda>bvid. Inr gap_reply),
       playurl = (\<lambda>bvid cid. Inl ''unused''),
       playurl_legacy = (\<lambda>bvid cid. Inl ''unused'') \<rparr>"

text \<open>Two variants as the selection functions can be handed them: 1080p first, then a
  higher tier.\<close>

definition tier_80 :: StreamInfo where
  "tier_80 = \<lparr> Quality = 80, Format = ''mp4'', VideoURL = ''https://cdn/80.m4s'', AudioURL = [],
               VideoCodecs = [], AudioCodecs = [], Bandwidth = 0, Resolution = ''1920x1080'' \<rparr>"

definition tier_112 :: StreamInfo where
  "tier_112 = \<lparr> Quality = 112, Format = ''mp4'', VideoURL = ''https://cdn/112.m4s'', AudioURL = [],
                VideoCodecs = [], AudioCodecs = [], Bandwidth = 0, Resolution = ''1920x1080'' \<rparr>"

text \<open>A collection of five sub-items with the ordinal indices 1 to 5.\<close>

definition course_episode :: "int \<Rightarrow> EpisodeInfo" where
  "course_episode i =
     \<lparr> ep_BVID = ''BV1qt4y1X7TW'', ep_CID = 1000 + i, ep_Title = ''Part'', ep_Duration = 60,
       ep_Index = i \<rparr>"

definition five_part_course :: VideoInfo where
  "five_part_course =
     \<lparr> BVID = ''BV1qt4y1X7TW'', AID = 170001, Title = ''Course'', Desc = [], Duration = 300,
       Type = ''playlist'', Episodes = map course_episode [1, 2, 3, 4, 5], Pages = [] \<rparr>"

subsection \<open>The credential string, in the words of its description\<close>

text \<open>A segment that contains \<open>=\<close> stands for one pair: the name before the first \<open>=\<close>
  and the value after it, each without surrounding white space. A segment without \<open>=\<close>
  stands for nothing.\<close>

definition segment_pair :: "string \<Rightarrow> (string \<times> string) option" where
  "segment_pair segment =
     (if CHR ''='' \<in> set segment
      then Some (TrimSpace (takeWhile (\<lambda>c. c \<noteq> CHR ''='') (TrimSpace segment)),
                 TrimSpace (tl (dropWhile (\<lambda>c. c \<noteq> CHR ''='') (TrimSpace segment))))
      else None)"

text \<open>An item of two pages, as \<open>downloadPlaylist\<close> hands it to the stream resolution.\<close>

definition two_page_item :: VideoInfo where
  "two_page_item =
     \<lparr> BVID = ''BV1qt4y1X7TW'', AID = 170001, Title = ''Lectures'', Desc = [], Duration = 300,
       Type = ''video'', Episodes = [], Pages = r_Pages gap_reply \<rparr>"

text \<open>A platform that cannot be reached: every request fails in the transport.\<close>

definition unreachable_platform :: platform where
  "unreachable_platform =
     \<lparr> view = (\<lambda>bvid. Inl ''connection refused''),
       playurl = (\<lambda>bvid cid. Inl ''connection refused''),
       playurl_legacy = (\<lambda>bvid cid. Inl ''connection refused'') \<rparr>"

section \<open>Properties\<close>

subsection \<open>Quality selection: the best pick\<close>

lemma best_loop_mem: "best_loop b ss \<in> set (b # ss)"
  by (induction ss arbitrary: b) auto

lemma best_loop_ge_start: "Quality b \<le> Quality (best_loop b ss)"
proof (induction ss arbitrary: b)
  case Nil
  show ?case by simp
next
  case (Cons s ss)
  have "Quality b \<le> Quality (if Quality s > Quality b then s else b)" by simp
  also have "\<dots> \<le> Quality (best_loop (if Quality s > Quality b then s else b) ss)"
    by (rule Cons.IH)
  finally show ?case by simp
qed

lemma best_loop_max: "x \<in> set (b # ss) \<Longrightarrow> Quality x \<le> Quality (best_loop b ss)"
proof (induction ss arbitrary: b)
  case Nil
  then show ?case by simp
next
  case (Cons s ss)
  let ?b = "if Quality s > Quality b then s else b"
  from Cons.prems consider "x = b" | "x = s" | "x \<in> set ss" by auto
  then show ?case
  proof cases
    case 1
    have "Quality b \<le> Quality ?b" by simp
    also have "\<dots> \<le> Quality (best_loop ?b ss)" by (rule best_loop_ge_start)
    finally show ?thesis using 1 by simp
  next
    case 2
    have "Quality s \<le> Quality ?b" by simp
    also have "\<dots> \<le> Quality (best_loop ?b ss)" by (rule best_loop_ge_start)
    finally show ?thesis using 2 by simp
  next
    case 3
    then have "x \<in> set (?b # ss)" by simp
    from Cons.IH [OF this] show ?thesis by simp
  qed
qed

lemma best_loop_top: "\<forall>x\<in>set ss. Quality x \<le> Quality b \<Longrightarrow> best_loop b ss = b"
  by (induction ss arbitrary: b) auto

lemma find_quality_Some: "find_quality t ss = Some s \<Longrightarrow> s \<in> set ss \<and> Quality s = t"
  by (induction ss) (auto split: if_splits)

lemma find_quality_None: "find_quality t ss = None \<longleftrightarrow> t \<notin> Quality ` set ss"
  by (induction ss) auto

lemma find_quality_find: "find_quality t ss = List.find (\<lambda>s. Quality s = t) ss"
  by (induction ss) auto

text \<open>When no tier exceeds \<open>t\<close> and the running best is below \<open>t\<close>, the best pick is the
  first variant of tier \<open>t\<close>.\<close>

lemma best_loop_find:
  "\<forall>x\<in>set (b # ss). Quality x \<le> t \<Longrightarrow> Quality b \<noteq> t \<Longrightarrow> find_quality t ss = Some s
     \<Longrightarrow> best_loop b ss = s"
proof (induction ss arbitrary: b)
  case Nil
  then show ?case by simp
next
  case (Cons a ss)
  show ?case
  proof (cases "Quality a = t")
    case True
    with Cons.prems have "s = a" "Quality b < Quality a" by auto
    moreover have "best_loop a ss = a" using Cons.prems True by (intro best_loop_top) auto
    ultimately show ?thesis by simp
  next
    case False
    let ?b = "if Quality a > Quality b then a else b"
    have "best_loop ?b ss = s"
      using Cons.prems False by (intro Cons.IH) auto
    then show ?thesis by simp
  qed
qed

lemma GetBest_Some: "streams \<noteq> [] \<Longrightarrow> \<exists>s\<in>set streams. GetBestQualityStream streams = Some s"
  using best_loop_mem by (cases streams) (auto simp: GetBestQualityStream_def simp del: set_ConsD)

text \<open>The best pick is the first variant whose tier no other variant exceeds.\<close>

lemma GetBest_first_max:
  assumes "GetBestQualityStream streams = Some s"
  shows "List.find (\<lambda>x. \<forall>y\<in>set streams. Quality y \<le> Quality x) streams = Some s"
proof -
  from assms obtain b ss where streams: "streams = b # ss" and s: "s = best_loop b ss"
    by (cases streams) (auto simp: GetBestQualityStream_def)
  have max: "\<forall>y\<in>set streams. Quality y \<le> Quality s"
    using best_loop_max [of _ b ss] streams s by blast
  have fq: "find_quality (Quality s) streams = Some s"
  proof (cases "Quality b = Quality s")
    case True
    then have "best_loop b ss = b" using max streams by (intro best_loop_top) auto
    then show ?thesis using True s streams by simp
  next
    case False
    have "s \<in> set (b # ss)" unfolding s by (rule best_loop_mem)
    with False have "s \<in> set ss" by auto
    then have "Quality s \<in> Quality ` set ss" by blast
    then obtain s' where s': "find_quality (Quality s) ss = Some s'"
      using find_quality_None [of "Quality s" ss] by (cases "find_quality (Quality s) ss") auto
    have "best_loop b ss = s'"
      using max streams False s' by (intro best_loop_find [where t = "Quality s"]) auto
    then show ?thesis using s s' False streams by simp
  qed
  have "List.find (\<lambda>x. \<forall>y\<in>set streams. Quality y \<le> Quality x) streams
          = List.find (\<lambda>x. Quality x = Quality s) streams"
  proof (rule find_cong [OF refl])
    fix x assume x: "x \<in> set streams"
    have "s \<in> set streams" using find_quality_Some [OF fq] by simp
    then show "(\<forall>y\<in>set streams. Quality y \<le> Quality x) = (Quality x = Quality s)"
      using max x by (auto intro: antisym)
  qed
  with fq show ?thesis by (simp add: find_quality_find)
qed

lemma label_best: "labelQualityMap ''best'' = Some 80"
  by (simp add: labelQualityMap_def)

lemma labelQualityMap_None:
  "labelQualityMap label = None \<longleftrightarrow> label \<notin> {''best'', ''1080p'', ''720p'', ''480p'', ''360p''}"
  by (simp add: labelQualityMap_def)

lemma pick_best_label_iff:
  assumes "streams \<noteq> []"
  shows "GetStreamByQuality streams ''best'' = GetBestQualityStream streams
     \<longleftrightarrow> ((\<exists>s\<in>set streams. Quality s = 80) \<longrightarrow> (\<forall>s\<in>set streams. Quality s \<le> 80))"
proof (cases "find_quality 80 streams")
  case None
  then have "80 \<notin> Quality ` set streams" by (simp add: find_quality_None)
  moreover have "GetStreamByQuality streams ''best'' = GetBestQualityStream streams"
    using None by (simp add: GetStreamByQuality_def label_best)
  ultimately show ?thesis by auto
next
  case (Some s)
  from assms obtain b ss where streams: "streams = b # ss" by (cases streams) auto
  have s: "s \<in> set streams" "Quality s = 80" using find_quality_Some [OF Some] by auto
  have lhs: "GetStreamByQuality streams ''best'' = Some s"
    using Some by (simp add: GetStreamByQuality_def label_best)
  have best: "GetBestQualityStream streams = Some (best_loop b ss)"
    by (simp add: GetBestQualityStream_def streams)
  show ?thesis
  proof
    assume "GetStreamByQuality streams ''best'' = GetBestQualityStream streams"
    with lhs best have "best_loop b ss = s" by simp
    then have "\<forall>x\<in>set streams. Quality x \<le> 80"
      using best_loop_max [of _ b ss] s streams by auto
    then show "(\<exists>s\<in>set streams. Quality s = 80) \<longrightarrow> (\<forall>s\<in>set streams. Quality s \<le> 80)" by simp
  next
    assume "(\<exists>s\<in>set streams. Quality s = 80) \<longrightarrow> (\<forall>s\<in>set streams. Quality s \<le> 80)"
    with s have le: "\<forall>x\<in>set (b # ss). Quality x \<le> 80" unfolding streams by blast
    have "best_loop b ss = s"
    proof (cases "Quality b = 80")
      case True
      then have "s = b" using Some streams by simp
      moreover have "best_loop b ss = b" using le True by (intro best_loop_top) auto
      ultimately show ?thesis by simp
    next
      case False
      then have "find_quality 80 ss = Some s" using Some streams by simp
      from best_loop_find [OF le False this] show ?thesis .
    qed
    with lhs best show "GetStreamByQuality streams ''best'' = GetBestQualityStream streams" by simp
  qed
qed

text \<open>
  Claim C4, amended. For every non-empty list of variants, selecting by the label
  \<open>best\<close> returns the same variant as the best-quality pick exactly when the list has
  no variant of tier 80 or no variant above tier 80; this covers every list whose tiers
  lie in the vocabulary 16, 32, 64, 80. The best-quality pick is the first variant whose
  tier is maximal.
\<close>

theorem best_label_is_best_pick:
  assumes "streams \<noteq> []"
  shows "(GetStreamByQuality streams ''best'' = GetBestQualityStream streams
           \<longleftrightarrow> ((\<exists>s\<in>set streams. Quality s = 80) \<longrightarrow> (\<forall>s\<in>set streams. Quality s \<le> 80)))
       \<and> GetBestQualityStream streams
           = List.find (\<lambda>s. \<forall>x\<in>set streams. Quality x \<le> Quality s) streams"
proof
  show "GetStreamByQuality streams ''best'' = GetBestQualityStream streams
           \<longleftrightarrow> ((\<exists>s\<in>set streams. Quality s = 80) \<longrightarrow> (\<forall>s\<in>set streams. Quality s \<le> 80))"
    by (rule pick_best_label_iff [OF assms])
  from GetBest_Some [OF assms] obtain b where "GetBestQualityStream streams = Some b" by blast
  then show "GetBestQualityStream streams
           = List.find (\<lambda>s. \<forall>x\<in>set streams. Quality x \<le> Quality s) streams"
    using GetBest_first_max [of streams b] by simp
qed

text \<open>A 720p variant followed by a 1080p variant: both selections return the second.\<close>

theorem best_label_is_best_pick_witness:
  "[tier_80\<lparr>Quality := 64\<rparr>, tier_80] \<noteq> []
    \<and> GetStreamByQuality [tier_80\<lparr>Quality := 64\<rparr>, tier_80] ''best'' = Some tier_80
    \<and> GetBestQualityStream [tier_80\<lparr>Quality := 64\<rparr>, tier_80] = Some tier_80"
proof -
  have ne: "[tier_80\<lparr>Quality := 64\<rparr>, tier_80] \<noteq> []" by simp
  have best: "GetBestQualityStream [tier_80\<lparr>Quality := 64\<rparr>, tier_80] = Some tier_80"
    by (simp add: GetBestQualityStream_def tier_80_def)
  have "GetStreamByQuality [tier_80\<lparr>Quality := 64\<rparr>, tier_80] ''best'' = Some tier_80"
    using best_label_is_best_pick [OF ne] best by (simp add: tier_80_def)
  with best show ?thesis by simp
qed

text \<open>A 1080p variant followed by one of tier 112: the label \<open>best\<close> returns the first,
  the best-quality pick the second.\<close>

theorem best_label_counterexample:
  "GetStreamByQuality [tier_80, tier_112] ''best'' = Some tier_80
     \<and> GetBestQualityStream [tier_80, tier_112] = Some tier_112
     \<and> tier_80 \<noteq> tier_112"
  by (simp add: GetStreamByQuality_def GetBestQualityStream_def labelQualityMap_def
        tier_80_def tier_112_def)

text \<open>
  Claim C5. For every non-empty list of variants and every label, the selection by label
  returns a variant of the list, never \<open>nil\<close>; a label outside the five known ones gives
  the best-quality pick, and so does a known label whose tier no variant of the list has.
\<close>

theorem pick_by_label_never_fails:
  assumes "streams \<noteq> []"
  shows "(\<exists>s\<in>set streams. GetStreamByQuality streams label = Some s)
       \<and> (label \<notin> {''best'', ''1080p'', ''720p'', ''480p'', ''360p''}
            \<longrightarrow> GetStreamByQuality streams label = GetBestQualityStream streams)
       \<and> (\<forall>t. labelQualityMap label = Some t \<and> t \<notin> Quality ` set streams
            \<longrightarrow> GetStreamByQuality streams label = GetBestQualityStream streams)"
proof (intro conjI allI impI)
  from GetBest_Some [OF assms] obtain b where b: "b \<in> set streams" "GetBestQualityStream streams = Some b"
    by blast
  show "\<exists>s\<in>set streams. GetStreamByQuality streams label = Some s"
  proof (cases "labelQualityMap label")
    case None
    then show ?thesis using b by (simp add: GetStreamByQuality_def)
  next
    case (Some t)
    show ?thesis
    proof (cases "find_quality t streams")
      case None
      then show ?thesis using Some b by (simp add: GetStreamByQuality_def)
    next
      case (Some s)
      then show ?thesis using \<open>labelQualityMap label = Some t\<close> find_quality_Some [OF Some]
        by (simp add: GetStreamByQuality_def)
    qed
  qed
next
  assume "label \<notin> {''best'', ''1080p'', ''720p'', ''480p'', ''360p''}"
  then have "labelQualityMap label = None" using labelQualityMap_None [of label] by blast
  then show "GetStreamByQuality streams label = GetBestQualityStream streams"
    by (simp add: GetStreamByQuality_def)
next
  fix t assume "labelQualityMap label = Some t \<and> t \<notin> Quality ` set streams"
  then show "GetStreamByQuality streams label = GetBestQualityStream streams"
    using find_quality_None [of t streams] by (simp add: GetStreamByQuality_def)
qed

text \<open>An unknown label and a known label of an absent tier both give the best pick; a
  known label of a tier that is present gives that tier.\<close>

theorem pick_by_label_never_fails_witness:
  "[tier_80, tier_112] \<noteq> []
     \<and> GetStreamByQuality [tier_80, tier_112] ''4k'' = Some tier_112
     \<and> GetStreamByQuality [tier_80, tier_112] ''480p'' = Some tier_112
     \<and> GetStreamByQuality [tier_80, tier_112] ''1080p'' = Some tier_80"
proof -
  have ne: "[tier_80, tier_112] \<noteq> []" by simp
  have best: "GetBestQualityStream [tier_80, tier_112] = Some tier_112"
    by (simp add: GetBestQualityStream_def tier_80_def tier_112_def)
  have l: "labelQualityMap ''480p'' = Some 32" by (simp add: labelQualityMap_def)
  have "GetStreamByQuality [tier_80, tier_112] ''4k'' = Some tier_112"
    using pick_by_label_never_fails [OF ne, of "''4k''"] best by simp
  moreover have "GetStreamByQuality [tier_80, tier_112] ''480p'' = Some tier_112"
    using pick_by_label_never_fails [OF ne, of "''480p''"] best l
    by (simp add: tier_80_def tier_112_def)
  moreover have "GetStreamByQuality [tier_80, tier_112] ''1080p'' = Some tier_80"
    by (simp add: GetStreamByQuality_def labelQualityMap_def tier_80_def)
  ultimately show ?thesis using ne by simp
qed

subsection \<open>Stream resolution\<close>

lemma qualityMap_eq: "qualityMap q = (if q \<in> {16, 32, 64, 80} then Some q else None)"
  by (simp add: qualityMap_def)

lemma dash_streams_filter:
  "dash_streams audio videos =
     map (\<lambda>v. dash_stream audio v (v_ID v)) (filter (\<lambda>v. v_ID v \<in> {16, 32, 64, 80}) videos)"
  by (induction videos) (simp_all add: qualityMap_eq)

lemma dash_stream_quality: "Quality (dash_stream audio v q) = q"
  by (simp add: dash_stream_def)

lemma legacy_stream_quality: "Quality (legacy_stream q d) = q"
  by (simp add: legacy_stream_def)

lemma dash_streams_quality:
  "map Quality (dash_streams audio videos) = filter (\<lambda>q. q \<in> {16, 32, 64, 80}) (map v_ID videos)"
  by (induction videos) (simp_all add: qualityMap_eq dash_stream_quality)

lemma dash_streams_empty:
  "dash_streams audio videos = [] \<longleftrightarrow> \<not> (\<exists>v\<in>set videos. v_ID v \<in> {16, 32, 64, 80})"
  unfolding dash_streams_filter by (simp add: filter_empty_conv)

text \<open>What a successful resolution returns: the modern renditions of the four tiers when
  there is one, the legacy entries at the quality of the legacy reply otherwise.\<close>

lemma getVideoStreamsByCID_Inr:
  assumes "getVideoStreamsByCID w bvid cid = Inr streams"
  shows "\<exists>r. playurl w bvid cid = Inr r \<and>
           (if \<exists>v\<in>set (d_Video r). v_ID v \<in> {16, 32, 64, 80}
            then streams = dash_streams (d_Audio r) (d_Video r)
            else \<exists>l. playurl_legacy w bvid cid = Inr l
                   \<and> streams = map (legacy_stream (l_Quality l)) (l_DURL l))"
proof -
  from assms obtain r where r: "playurl w bvid cid = Inr r" "d_Code r = 0"
    by (auto simp: getVideoStreamsByCID_def split: sum.splits if_splits)
  show ?thesis
  proof (cases "\<exists>v\<in>set (d_Video r). v_ID v \<in> {16, 32, 64, 80}")
    case True
    then have "dash_streams (d_Audio r) (d_Video r) \<noteq> []"
      using dash_streams_empty [of "d_Audio r" "d_Video r"] by blast
    with assms r have "streams = dash_streams (d_Audio r) (d_Video r)"
      by (simp add: getVideoStreamsByCID_def)
    with r True show ?thesis by auto
  next
    case False
    then have "dash_streams (d_Audio r) (d_Video r) = []"
      using dash_streams_empty [of "d_Audio r" "d_Video r"] by blast
    with assms r have "getLegacyVideoStreams w bvid cid = Inr streams"
      by (simp add: getVideoStreamsByCID_def)
    then obtain l where "playurl_legacy w bvid cid = Inr l"
        and "streams = map (legacy_stream (l_Quality l)) (l_DURL l)"
      by (auto simp: getLegacyVideoStreams_def split: sum.splits if_splits)
    with r False show ?thesis by auto
  qed
qed

text \<open>
  Claim C1, amended. When the modern playback reply has a rendition of a recognized
  quality identifier, the resolution does not fail and returns one variant for every
  such rendition, in the order of the reply: two renditions of the same identifier give
  two variants of that tier.
\<close>

theorem recognized_renditions_all_retained:
  assumes "playurl w bvid cid = Inr r" "d_Code r = 0"
    and "\<exists>v\<in>set (d_Video r). v_ID v \<in> {16, 32, 64, 80}"
  shows "getVideoStreamsByCID w bvid cid =
           Inr (map (\<lambda>v. dash_stream (d_Audio r) v (v_ID v))
                    (filter (\<lambda>v. v_ID v \<in> {16, 32, 64, 80}) (d_Video r)))"
proof -
  have "dash_streams (d_Audio r) (d_Video r) \<noteq> []"
    using assms(3) dash_streams_empty [of "d_Audio r" "d_Video r"] by blast
  then show ?thesis
    using assms(1,2) by (simp add: getVideoStreamsByCID_def dash_streams_filter)
qed

text \<open>The reply with the 1080p rendition in two codecs gives both, in order.\<close>

theorem recognized_renditions_all_retained_witness:
  "playurl two_codecs_platform ''BV1qt4y1X7TW'' 1001 = Inr two_codecs_reply
     \<and> d_Code two_codecs_reply = 0
     \<and> map VideoURL (projr (getVideoStreamsByCID two_codecs_platform ''BV1qt4y1X7TW'' 1001))
          = [''https://cdn/avc.m4s'', ''https://cdn/hevc.m4s'']"
proof -
  have h1: "playurl two_codecs_platform ''BV1qt4y1X7TW'' 1001 = Inr two_codecs_reply"
    by (simp add: two_codecs_platform_def)
  have h2: "d_Code two_codecs_reply = 0" by (simp add: two_codecs_reply_def)
  have h3: "\<exists>v\<in>set (d_Video two_codecs_reply). v_ID v \<in> {16, 32, 64, 80}"
    by (simp add: two_codecs_reply_def)
  have "map VideoURL (projr (getVideoStreamsByCID two_codecs_platform ''BV1qt4y1X7TW'' 1001))
          = [''https://cdn/avc.m4s'', ''https://cdn/hevc.m4s'']"
    unfolding recognized_renditions_all_retained [OF h1 h2 h3]
    by (simp add: two_codecs_reply_def dash_stream_def)
  with h1 h2 show ?thesis by simp
qed

text \<open>The same reply: the returned list has two variants of tier 80.\<close>

theorem duplicate_tier_counterexample:
  "\<not> isl (getVideoStreamsByCID two_codecs_platform ''BV1qt4y1X7TW'' 1001)
     \<and> map Quality (projr (getVideoStreamsByCID two_codecs_platform ''BV1qt4y1X7TW'' 1001)) = [80, 80]
     \<and> \<not> distinct (map Quality (projr (getVideoStreamsByCID two_codecs_platform ''BV1qt4y1X7TW'' 1001)))"
  by (simp add: getVideoStreamsByCID_def two_codecs_platform_def two_codecs_reply_def
        qualityMap_def dash_stream_def)

text \<open>
  Claim C2, amended. Every variant that the resolution returns from the modern endpoint
  has a tier in the vocabulary 16, 32, 64, 80, and the tiers returned are the recognized
  identifiers of the reply in order: a rendition of another identifier is dropped. When
  the reply has no recognized rendition the variants come from the legacy endpoint, one
  for every entry, and each carries the quality of the legacy reply as it is.
\<close>

theorem resolved_tiers:
  assumes "getVideoStreamsByCID w bvid cid = Inr streams"
  shows "\<exists>r. playurl w bvid cid = Inr r \<and>
           (if \<exists>v\<in>set (d_Video r). v_ID v \<in> {16, 32, 64, 80}
            then (\<forall>s\<in>set streams. Quality s \<in> {16, 32, 64, 80})
               \<and> map Quality streams = filter (\<lambda>q. q \<in> {16, 32, 64, 80}) (map v_ID (d_Video r))
            else \<exists>l. playurl_legacy w bvid cid = Inr l
               \<and> length streams = length (l_DURL l)
               \<and> (\<forall>s\<in>set streams. Quality s = l_Quality l))"
proof -
  from getVideoStreamsByCID_Inr [OF assms] obtain r where r: "playurl w bvid cid = Inr r"
    and c: "if \<exists>v\<in>set (d_Video r). v_ID v \<in> {16, 32, 64, 80}
            then streams = dash_streams (d_Audio r) (d_Video r)
            else \<exists>l. playurl_legacy w bvid cid = Inr l
                   \<and> streams = map (legacy_stream (l_Quality l)) (l_DURL l)"
    by blast
  show ?thesis
  proof (cases "\<exists>v\<in>set (d_Video r). v_ID v \<in> {16, 32, 64, 80}")
    case True
    with c have streams: "streams = dash_streams (d_Audio r) (d_Video r)" by simp
    have q: "map Quality streams = filter (\<lambda>q. q \<in> {16, 32, 64, 80}) (map v_ID (d_Video r))"
      unfolding streams by (rule dash_streams_quality)
    have "set (map Quality streams) \<subseteq> {16, 32, 64, 80}" unfolding q by auto
    then have "\<forall>s\<in>set streams. Quality s \<in> {16, 32, 64, 80}" by auto
    with q r True show ?thesis by auto
  next
    case False
    with c obtain l where l: "playurl_legacy w bvid cid = Inr l"
        and streams: "streams = map (legacy_stream (l_Quality l)) (l_DURL l)"
      by auto
    have "\<forall>s\<in>set streams. Quality s = l_Quality l"
      unfolding streams by (auto simp: legacy_stream_quality)
    moreover have "length streams = length (l_DURL l)" unfolding streams by simp
    ultimately show ?thesis using r l False by auto
  qed
qed

text \<open>The old item: one legacy entry, returned at the quality of the legacy reply.\<close>

theorem resolved_tiers_witness:
  "getVideoStreamsByCID old_item_platform ''BV1xx411c7mD'' 2001
      = Inr [legacy_stream 6 \<lparr> u_URL = ''https://cdn/old.flv'', u_Size = 1000, u_Length = 60 \<rparr>]
    \<and> playurl_legacy old_item_platform ''BV1xx411c7mD'' 2001
      = Inr \<lparr> l_Code = 0,
              l_DURL = [\<lparr> u_URL = ''https://cdn/old.flv'', u_Size = 1000, u_Length = 60 \<rparr>],
              l_Quality = 6 \<rparr>"
proof -
  have h: "getVideoStreamsByCID old_item_platform ''BV1xx411c7mD'' 2001
      = Inr [legacy_stream 6 \<lparr> u_URL = ''https://cdn/old.flv'', u_Size = 1000, u_Length = 60 \<rparr>]"
    by (simp add: getVideoStreamsByCID_def getLegacyVideoStreams_def old_item_platform_def)
  from resolved_tiers [OF h] h show ?thesis
    by (simp add: old_item_platform_def)
qed

text \<open>The old item again: the returned variant has tier 6, outside the vocabulary.\<close>

theorem legacy_tier_counterexample:
  "\<not> isl (getVideoStreamsByCID old_item_platform ''BV1xx411c7mD'' 2001)
     \<and> map Quality (projr (getVideoStreamsByCID old_item_platform ''BV1xx411c7mD'' 2001)) = [6]
     \<and> (6 :: int) \<notin> {16, 32, 64, 80}"
  by (simp add: getVideoStreamsByCID_def getLegacyVideoStreams_def old_item_platform_def
        legacy_stream_def)

text \<open>Every list that the resolution returns is one on which the label \<open>best\<close> gives
  the best-quality pick.\<close>

lemma resolved_streams_best_label:
  assumes "getVideoStreamsByCID w bvid cid = Inr streams" "streams \<noteq> []"
  shows "GetStreamByQuality streams ''best'' = GetBestQualityStream streams"
proof -
  from getVideoStreamsByCID_Inr [OF assms(1)] obtain r where
    r: "playurl w bvid cid = Inr r" and
    c: "if \<exists>v\<in>set (d_Video r). v_ID v \<in> {16, 32, 64, 80}
        then streams = dash_streams (d_Audio r) (d_Video r)
        else \<exists>l. playurl_legacy w bvid cid = Inr l
               \<and> streams = map (legacy_stream (l_Quality l)) (l_DURL l)"
    by blast
  have "(\<exists>s\<in>set streams. Quality s = 80) \<longrightarrow> (\<forall>s\<in>set streams. Quality s \<le> 80)"
  proof (cases "\<exists>v\<in>set (d_Video r). v_ID v \<in> {16, 32, 64, 80}")
    case True
    with c have "map Quality streams = filter (\<lambda>q. q \<in> {16, 32, 64, 80}) (map v_ID (d_Video r))"
      by (simp add: dash_streams_quality)
    then have "set (map Quality streams) \<subseteq> {16, 32, 64, 80}" by auto
    then have "\<forall>s\<in>set streams. Quality s \<in> {16, 32, 64, 80}" by auto
    then show ?thesis by auto
  next
    case False
    with c obtain l where "playurl_legacy w bvid cid = Inr l"
        and "streams = map (legacy_stream (l_Quality l)) (l_DURL l)"
      by auto
    then have "\<forall>s\<in>set streams. Quality s = l_Quality l" by (auto simp: legacy_stream_quality)
    then show ?thesis by auto
  qed
  with pick_best_label_iff [OF assms(2)] show ?thesis by simp
qed

text \<open>
  Claim C9, amended. For a video whose page list is not empty, a request for a page
  number outside 1..len(pages) uses the content id of the first page: it returns what
  the stream resolution of that content id returns, so it fails where that resolution
  fails and only there. The request returns the error of the missing pages exactly when
  the page list is empty.
\<close>

theorem page_out_of_range_uses_first_page:
  "(Pages videoInfo \<noteq> [] \<and> (pageNum < 1 \<or> int (length (Pages videoInfo)) < pageNum)
      \<longrightarrow> GetVideoStreamsForPage w videoInfo pageNum
            = getVideoStreamsByCID w (BVID videoInfo) (pg_CID (hd (Pages videoInfo))))
   \<and> (GetVideoStreamsForPage w videoInfo pageNum = Inl NoPagesFound \<longleftrightarrow> Pages videoInfo = [])"
proof -
  have "getVideoStreamsByCID w b c \<noteq> Inl NoPagesFound" for b c
    by (auto simp: getVideoStreamsByCID_def getLegacyVideoStreams_def Let_def split: sum.splits)
  then show ?thesis
    by (auto simp: GetVideoStreamsForPage_def Let_def hd_conv_nth)
qed

text \<open>Page 7 and page 0 of the item of two pages resolve the streams of the first page
  and succeed; with the page list removed the request fails.\<close>

theorem page_out_of_range_uses_first_page_witness:
  "Pages two_page_item \<noteq> []
    \<and> GetVideoStreamsForPage two_codecs_platform two_page_item 7
        = getVideoStreamsByCID two_codecs_platform ''BV1qt4y1X7TW'' 1001
    \<and> GetVideoStreamsForPage two_codecs_platform two_page_item 0
        = getVideoStreamsByCID two_codecs_platform ''BV1qt4y1X7TW'' 1001
    \<and> \<not> isl (getVideoStreamsByCID two_codecs_platform ''BV1qt4y1X7TW'' 1001)
    \<and> GetVideoStreamsForPage two_codecs_platform (two_page_item\<lparr>Pages := []\<rparr>) 7 = Inl NoPagesFound"
proof -
  have p: "Pages two_page_item \<noteq> []" "length (Pages two_page_item) = 2"
    "BVID two_page_item = ''BV1qt4y1X7TW''" "pg_CID (hd (Pages two_page_item)) = 1001"
    by (simp_all add: two_page_item_def gap_reply_def)
  have ok: "\<not> isl (getVideoStreamsByCID two_codecs_platform ''BV1qt4y1X7TW'' 1001)"
    by (simp add: getVideoStreamsByCID_def two_codecs_platform_def two_codecs_reply_def
          qualityMap_def)
  have "GetVideoStreamsForPage two_codecs_platform two_page_item 7
        = getVideoStreamsByCID two_codecs_platform ''BV1qt4y1X7TW'' 1001"
    using page_out_of_range_uses_first_page [of two_page_item 7 two_codecs_platform] p by simp
  moreover have "GetVideoStreamsForPage two_codecs_platform two_page_item 0
        = getVideoStreamsByCID two_codecs_platform ''BV1qt4y1X7TW'' 1001"
    using page_out_of_range_uses_first_page [of two_page_item 0 two_codecs_platform] p by simp
  moreover have "GetVideoStreamsForPage two_codecs_platform (two_page_item\<lparr>Pages := []\<rparr>) 7
        = Inl NoPagesFound"
    using page_out_of_range_uses_first_page [of "two_page_item\<lparr>Pages := []\<rparr>" 7 two_codecs_platform]
    by simp
  ultimately show ?thesis using p(1) ok by simp
qed

text \<open>Page 7 of the item of two pages on a platform that cannot be reached: the page list
  is not empty and the request fails.\<close>

theorem page_request_fails_counterexample:
  "Pages two_page_item \<noteq> []
    \<and> GetVideoStreamsForPage unreachable_platform two_page_item 7
        = Inl (RequestFailed ''connection refused'')"
  by (simp add: GetVideoStreamsForPage_def getVideoStreamsByCID_def unreachable_platform_def
        two_page_item_def gap_reply_def)

subsection \<open>Item metadata\<close>

lemma fill_episodes_eq:
  "i + length pages \<le> length eps \<Longrightarrow>
     fill_episodes vi i pages eps =
       take i eps @ map (\<lambda>p. Some (page_episode vi p)) pages @ drop (i + length pages) eps"
proof (induction pages arbitrary: i eps)
  case Nil
  then show ?case by simp
next
  case (Cons p pages)
  let ?eps = "eps[i := Some (page_episode vi p)]"
  have i: "i < length eps" using Cons.prems by simp
  have "fill_episodes vi (i + 1) pages ?eps =
          take (i + 1) ?eps @ map (\<lambda>p. Some (page_episode vi p)) pages @ drop (i + 1 + length pages) ?eps"
    using Cons.prems by (intro Cons.IH) simp
  moreover have "take (i + 1) ?eps = take i eps @ [Some (page_episode vi p)]"
    using i by (simp add: take_Suc_conv_app_nth)
  moreover have "drop (i + 1 + length pages) ?eps = drop (i + 1 + length pages) eps"
    by simp
  ultimately show ?case by simp
qed

lemma pages_to_episodes_map: "pages_to_episodes vi = map (page_episode vi) (Pages vi)"
  by (simp add: pages_to_episodes_def fill_episodes_eq map_filter_def filter_map comp_def)

lemma parseVideoURL_playlist:
  assumes "find_BVID url \<noteq> []" "view w (find_BVID url) = Inr r" "r_Code r = 0"
    and "length (r_Pages r) > 1"
  shows "\<exists>vi. parseVideoURL w url = Inr vi \<and> Type vi = ''playlist'' \<and> Title vi = r_Title r
           \<and> BVID vi = r_BVID r \<and> Pages vi = r_Pages r
           \<and> Episodes vi = map (page_episode vi) (r_Pages r)"
  using assms
  by (simp add: parseVideoURL_def getVideoInfo_def Let_def pages_to_episodes_map page_episode_def)

text \<open>The rendering is the decimal one: reading the digits back gives the number.\<close>

lemma show_nat_value: "digits_value (show_nat n) = int n"
proof (induction n rule: show_nat.induct)
  case (1 n)
  have d: "int (of_char (digit_char k)) - 48 = int k" if "k < 10" for k
    using that by (simp add: digit_char_def)
  show ?case
  proof (cases "n < 10")
    case True
    then show ?thesis by (subst show_nat.simps) (simp add: digits_value_def d)
  next
    case False
    then have "digits_value (show_nat (n div 10)) = int (n div 10)" by (rule 1)
    moreover have "10 * int (n div 10) + int (n mod 10) = int n" by presburger
    ultimately show ?thesis using False
      by (subst show_nat.simps) (simp add: digits_value_def d)
  qed
qed

text \<open>
  Claim C3, amended. For every item-metadata reply with status 0 whose page list has
  N > 1 entries, fetching the item succeeds with type \<open>playlist\<close> and exactly N sub-items
  in the order of the pages; the i-th sub-item has the content id of the i-th page and,
  as its index, the page number that the reply gives for that page. The indices are
  1..N when the reply numbers its pages 1..N.
\<close>

theorem multi_page_item_is_playlist:
  assumes "find_BVID url \<noteq> []" "view w (find_BVID url) = Inr r" "r_Code r = 0"
    and "length (r_Pages r) > 1"
  shows "\<exists>videoInfo. parseVideoURL w url = Inr videoInfo
           \<and> Type videoInfo = ''playlist''
           \<and> length (Episodes videoInfo) = length (r_Pages r)
           \<and> map ep_CID (Episodes videoInfo) = map pg_CID (r_Pages r)
           \<and> map ep_Index (Episodes videoInfo) = map pg_Page (r_Pages r)
           \<and> (map pg_Page (r_Pages r) = [1..int (length (r_Pages r))]
                \<longrightarrow> map ep_Index (Episodes videoInfo) = [1..int (length (r_Pages r))])"
proof -
  from parseVideoURL_playlist [OF assms] obtain vi where
    vi: "parseVideoURL w url = Inr vi" "Type vi = ''playlist''"
        "Episodes vi = map (page_episode vi) (r_Pages r)"
    by blast
  have "map ep_CID (Episodes vi) = map pg_CID (r_Pages r)"
    and "map ep_Index (Episodes vi) = map pg_Page (r_Pages r)"
    unfolding vi(3) by (simp_all add: page_episode_def Let_def)
  moreover have "length (Episodes vi) = length (r_Pages r)" unfolding vi(3) by simp
  ultimately show ?thesis using vi(1,2) by simp
qed

text \<open>The reply with the pages 1 and 3 gives a playlist of two sub-items.\<close>

theorem multi_page_item_is_playlist_witness:
  "find_BVID ''https://www.bilibili.com/video/BV1qt4y1X7TW'' = ''BV1qt4y1X7TW''
    \<and> view gap_platform ''BV1qt4y1X7TW'' = Inr gap_reply
    \<and> map ep_CID (Episodes (projr (parseVideoURL gap_platform ''https://www.bilibili.com/video/BV1qt4y1X7TW'')))
        = [1001, 1003]
    \<and> Type (projr (parseVideoURL gap_platform ''https://www.bilibili.com/video/BV1qt4y1X7TW''))
        = ''playlist''"
proof -
  have f: "find_BVID ''https://www.bilibili.com/video/BV1qt4y1X7TW'' = ''BV1qt4y1X7TW''"
    by (simp add: alnum_def)
  have h1: "find_BVID ''https://www.bilibili.com/video/BV1qt4y1X7TW'' \<noteq> []" unfolding f by simp
  have h2: "view gap_platform (find_BVID ''https://www.bilibili.com/video/BV1qt4y1X7TW'') = Inr gap_reply"
    by (simp add: gap_platform_def)
  have h3: "r_Code gap_reply = 0" and h4: "length (r_Pages gap_reply) > 1"
    by (simp_all add: gap_reply_def)
  from multi_page_item_is_playlist [OF h1 h2 h3 h4] obtain vi where
    "parseVideoURL gap_platform ''https://www.bilibili.com/video/BV1qt4y1X7TW'' = Inr vi"
    "Type vi = ''playlist''" "map ep_CID (Episodes vi) = map pg_CID (r_Pages gap_reply)"
    by blast
  then show ?thesis using f by (simp add: gap_platform_def gap_reply_def)
qed

text \<open>The same reply: the indices of the two sub-items are 1 and 3, not 1 and 2.\<close>

theorem page_numbers_counterexample:
  "\<not> isl (parseVideoURL gap_platform ''https://www.bilibili.com/video/BV1qt4y1X7TW'')
    \<and> length (Pages (projr (parseVideoURL gap_platform ''https://www.bilibili.com/video/BV1qt4y1X7TW''))) = 2
    \<and> map ep_Index (Episodes (projr (parseVideoURL gap_platform ''https://www.bilibili.com/video/BV1qt4y1X7TW'')))
        = [1, 3]"
  by (simp add: parseVideoURL_def getVideoInfo_def gap_platform_def gap_reply_def alnum_def
        pages_to_episodes_map page_episode_def Let_def)

text \<open>
  Claim C6. Every sub-item made from a page of a multi-page item has the part title of
  the page as its title when that is not empty, and otherwise the title of the item
  followed by \<open> - P\<close> and the page number in decimal.
\<close>

theorem episode_titles:
  assumes "find_BVID url \<noteq> []" "view w (find_BVID url) = Inr r" "r_Code r = 0"
    and "length (r_Pages r) > 1"
  shows "\<exists>videoInfo. parseVideoURL w url = Inr videoInfo
           \<and> length (Episodes videoInfo) = length (r_Pages r)
           \<and> (\<forall>i<length (r_Pages r).
                 ep_Title (Episodes videoInfo ! i)
                   = (if pg_Part (r_Pages r ! i) \<noteq> [] then pg_Part (r_Pages r ! i)
                      else r_Title r @ '' - P'' @ fmt_d (pg_Page (r_Pages r ! i))))"
proof -
  from parseVideoURL_playlist [OF assms] obtain vi where
    vi: "parseVideoURL w url = Inr vi" "Title vi = r_Title r"
        "Episodes vi = map (page_episode vi) (r_Pages r)"
    by blast
  have "ep_Title (Episodes vi ! i)
          = (if pg_Part (r_Pages r ! i) \<noteq> [] then pg_Part (r_Pages r ! i)
             else r_Title r @ '' - P'' @ fmt_d (pg_Page (r_Pages r ! i)))"
    if "i < length (r_Pages r)" for i
    using that vi(2) unfolding vi(3) by (simp add: page_episode_def Let_def)
  moreover have "length (Episodes vi) = length (r_Pages r)" unfolding vi(3) by simp
  ultimately show ?thesis using vi(1) by blast
qed

text \<open>The first page has a part title, the second (page 3) has none.\<close>

theorem episode_titles_witness:
  "view gap_platform (find_BVID ''https://www.bilibili.com/video/BV1qt4y1X7TW'') = Inr gap_reply
    \<and> map ep_Title (Episodes (projr (parseVideoURL gap_platform ''https://www.bilibili.com/video/BV1qt4y1X7TW'')))
        = [''Intro'', ''Lectures - P3'']"
proof -
  have f: "find_BVID ''https://www.bilibili.com/video/BV1qt4y1X7TW'' = ''BV1qt4y1X7TW''"
    by (simp add: alnum_def)
  have h1: "find_BVID ''https://www.bilibili.com/video/BV1qt4y1X7TW'' \<noteq> []" unfolding f by simp
  have h2: "view gap_platform (find_BVID ''https://www.bilibili.com/video/BV1qt4y1X7TW'') = Inr gap_reply"
    by (simp add: gap_platform_def)
  have h3: "r_Code gap_reply = 0" and h4: "length (r_Pages gap_reply) > 1"
    by (simp_all add: gap_reply_def)
  have d: "fmt_d 3 = ''3''" by code_simp
  from episode_titles [OF h1 h2 h3 h4] obtain vi where
    vi: "parseVideoURL gap_platform ''https://www.bilibili.com/video/BV1qt4y1X7TW'' = Inr vi"
    "length (Episodes vi) = length (r_Pages gap_reply)"
    "\<forall>i<length (r_Pages gap_reply).
                 ep_Title (Episodes vi ! i)
                   = (if pg_Part (r_Pages gap_reply ! i) \<noteq> [] then pg_Part (r_Pages gap_reply ! i)
                      else r_Title gap_reply @ '' - P'' @ fmt_d (pg_Page (r_Pages gap_reply ! i)))"
    by blast
  have len: "length (Episodes vi) = 2" using vi(2) by (simp add: gap_reply_def)
  have "ep_Title (Episodes vi ! 0) = ''Intro''" "ep_Title (Episodes vi ! 1) = ''Lectures - P3''"
    using vi(3) d by (simp_all add: gap_reply_def)
  moreover have "map ep_Title (Episodes vi) = [ep_Title (Episodes vi ! 0), ep_Title (Episodes vi ! 1)]"
    using len by (cases "Episodes vi"; cases "tl (Episodes vi)") auto
  ultimately show ?thesis using vi(1) h2 by simp
qed

subsection \<open>The credential string\<close>

lemma eq_not_space: "\<not> isSpace CHR ''=''"
  by (simp add: isSpace_def)

lemma set_dropWhile_space: "c \<in> set (dropWhile isSpace s) \<longleftrightarrow> c \<in> set s" if "\<not> isSpace c"
  using that by (induction s) auto

lemma eq_in_TrimSpace: "CHR ''='' \<in> set (TrimSpace s) \<longleftrightarrow> CHR ''='' \<in> set s"
  by (simp add: TrimSpace_def set_dropWhile_space eq_not_space)

lemma set_cookies_loop_pairs:
  "set_cookies_loop segments m = m ++ map_of (rev (List.map_filter segment_pair segments))"
proof (induction segments arbitrary: m)
  case Nil
  show ?case by simp
next
  case (Cons seg segments)
  show ?case
  proof (cases "CHR ''='' \<in> set seg")
    case True
    then have t: "CHR ''='' \<in> set (TrimSpace seg)" by (simp add: eq_in_TrimSpace)
    then have ne: "TrimSpace seg \<noteq> []" by auto
    let ?k = "TrimSpace (takeWhile (\<lambda>c. c \<noteq> CHR ''='') (TrimSpace seg))"
    let ?v = "TrimSpace (tl (dropWhile (\<lambda>c. c \<noteq> CHR ''='') (TrimSpace seg)))"
    have sp: "segment_pair seg = Some (?k, ?v)" using True by (simp add: segment_pair_def)
    have "set_cookies_loop (seg # segments) m = set_cookies_loop segments (m(?k \<mapsto> ?v))"
      using t ne by (simp add: SplitN2_def Let_def)
    also have "\<dots> = m(?k \<mapsto> ?v) ++ map_of (rev (List.map_filter segment_pair segments))"
      by (rule Cons.IH)
    also have "\<dots> = m ++ map_of (rev (List.map_filter segment_pair (seg # segments)))"
      using sp by (simp add: map_add_assoc [symmetric])
    finally show ?thesis .
  next
    case False
    then have t: "CHR ''='' \<notin> set (TrimSpace seg)" by (simp add: eq_in_TrimSpace)
    have sp: "segment_pair seg = None" using False by (simp add: segment_pair_def)
    have "set_cookies_loop (seg # segments) m = set_cookies_loop segments m"
      using t by (simp add: SplitN2_def Let_def)
    then show ?thesis using sp Cons.IH by simp
  qed
qed

text \<open>
  Claim C7. Parsing \<open>a=1; b=2 ; c\<close> sets the credentials \<open>a\<close> to \<open>1\<close> and \<open>b\<close> to \<open>2\<close> and
  nothing else, so a store that was empty holds exactly these two. For every string the
  call returns no error, and the store afterwards is the store before overridden by the
  pairs of the segments that contain \<open>=\<close>, later segments winning.
\<close>

theorem set_cookies_from_string_example:
  "SetCookiesFromString am ''a=1; b=2 ; c''
      = (None, am\<lparr> cookies := (cookies am)(''a'' \<mapsto> ''1'', ''b'' \<mapsto> ''2'') \<rparr>)
   \<and> cookies (snd (SetCookiesFromString (NewAuthManager dir) ''a=1; b=2 ; c''))
      = [''a'' \<mapsto> ''1'', ''b'' \<mapsto> ''2'']
   \<and> fst (SetCookiesFromString am cookieStr) = None
   \<and> cookies (snd (SetCookiesFromString am cookieStr))
      = cookies am ++ map_of (rev (List.map_filter segment_pair (Split cookieStr CHR '';'')))"
proof (intro conjI)
  have loop: "set_cookies_loop (Split ''a=1; b=2 ; c'' CHR '';'') m = m(''a'' \<mapsto> ''1'', ''b'' \<mapsto> ''2'')"
    for m
    by (simp add: TrimSpace_def isSpace_def SplitN2_def)
  show "SetCookiesFromString am ''a=1; b=2 ; c''
      = (None, am\<lparr> cookies := (cookies am)(''a'' \<mapsto> ''1'', ''b'' \<mapsto> ''2'') \<rparr>)"
    unfolding SetCookiesFromString_def loop by simp
  show "cookies (snd (SetCookiesFromString (NewAuthManager dir) ''a=1; b=2 ; c''))
      = [''a'' \<mapsto> ''1'', ''b'' \<mapsto> ''2'']"
    unfolding SetCookiesFromString_def loop by (simp add: NewAuthManager_def)
  show "fst (SetCookiesFromString am cookieStr) = None" by (simp add: SetCookiesFromString_def)
  show "cookies (snd (SetCookiesFromString am cookieStr))
      = cookies am ++ map_of (rev (List.map_filter segment_pair (Split cookieStr CHR '';'')))"
    by (simp add: SetCookiesFromString_def set_cookies_loop_pairs)
qed

subsection \<open>Page selection\<close>

text \<open>Below the largest integer the counting loop ends and appends the range.\<close>

lemma range_loop_closed:
  "end_page < 2 ^ 63 - 1 \<Longrightarrow> range_loop i end_page acc = Some (acc @ [i..end_page])"
proof (induction "nat (end_page + 1 - i)" arbitrary: i acc)
  case 0
  then have "\<not> i \<le> end_page" by simp
  then show ?case by (subst range_loop.simps) simp
next
  case (Suc n)
  then have le: "i \<le> end_page" by simp
  then have inc: "incr64 i = i + 1" using Suc.prems by (simp add: incr64_def)
  have "n = nat (end_page + 1 - (i + 1))" using Suc.hyps(2) by simp
  from Suc.hyps(1) [OF this Suc.prems]
  have "range_loop (i + 1) end_page (acc @ [i]) = Some ((acc @ [i]) @ [i + 1..end_page])" .
  then show ?case using le inc by (subst range_loop.simps) (simp add: upto_rec1)
qed

lemma parse_example: "parsePageRange ''1-2,4'' m = Some (Inr [1, 2, 4])"
  by (simp add: parsePageRange_def TrimSpace_def isSpace_def parseInt_def isDigit_def
        digits_value_def range_loop_closed upto.simps)

lemma select_loop_eq:
  "select_loop eps idxs acc =
     acc @ map (\<lambda>idx. eps ! nat (idx - 1)) (filter (\<lambda>idx. 0 < idx \<and> idx \<le> int (length eps)) idxs)"
  by (induction idxs arbitrary: acc) simp_all

text \<open>The decimal rendering of a number consists of digits, and the scanner reads it back.\<close>

lemma digit_char_of: "k < 10 \<Longrightarrow> (of_char (digit_char k) :: nat) = 48 + k"
  by (simp add: digit_char_def)

lemma digit_char_isDigit: "k < 10 \<Longrightarrow> isDigit (digit_char k)"
  by (simp add: isDigit_def digit_char_of)

lemma show_nat_digits: "show_nat n \<noteq> [] \<and> (\<forall>c\<in>set (show_nat n). isDigit c)"
proof (induction n rule: show_nat.induct)
  case (1 n)
  show ?case
  proof (cases "n < 10")
    case True
    then show ?thesis by (subst (1 2) show_nat.simps) (simp add: digit_char_isDigit)
  next
    case False
    then have "\<forall>c\<in>set (show_nat (n div 10)). isDigit c" using 1 by simp
    then show ?thesis using False
      by (subst (1 2) show_nat.simps) (simp add: digit_char_isDigit)
  qed
qed

lemma isDigit_not_other:
  assumes "isDigit c"
  shows "\<not> isSpace c" "c \<noteq> CHR ''-''" "c \<noteq> CHR ''+''" "c \<noteq> CHR '',''" "c \<noteq> CHR 0x0D" "c \<noteq> CHR 0x0A"
  using assms by (auto simp: isDigit_def isSpace_def)

lemma parseInt_digits:
  assumes "ds \<noteq> []" "\<forall>c\<in>set ds. isDigit c" "0 \<le> digits_value ds" "digits_value ds < 2 ^ 63"
  shows "parseInt ds = Some (digits_value ds)"
proof -
  from assms(1) obtain c cs where ds: "ds = c # cs" by (cases ds) auto
  have c: "isDigit c" using assms(2) ds by simp
  have skip: "SkipSpace ds = Some ds"
    unfolding ds using isDigit_not_other [OF c] by simp
  have tw: "takeWhile isDigit (c # cs) = c # cs"
    using assms(2) ds by (simp add: takeWhile_eq_all_conv)
  show ?thesis
    unfolding parseInt_def skip
    using isDigit_not_other [OF c] assms(3,4) tw
    by (simp add: ds Let_def)
qed

lemma parseInt_show_nat: "int n < 2 ^ 63 \<Longrightarrow> parseInt (show_nat n) = Some (int n)"
  using parseInt_digits [of "show_nat n"] show_nat_digits [of n] by (simp add: show_nat_value)

lemma parseInt_fmt_d: "0 \<le> a \<Longrightarrow> a < 2 ^ 63 \<Longrightarrow> parseInt (fmt_d a) = Some a"
  using parseInt_show_nat [of "nat a"] by (simp add: fmt_d_def)

lemma fmt_d_digits: "0 \<le> a \<Longrightarrow> fmt_d a \<noteq> [] \<and> (\<forall>c\<in>set (fmt_d a). isDigit c)"
  using show_nat_digits [of "nat a"] by (simp add: fmt_d_def)

text \<open>Trimming and splitting where there is nothing to trim or to split.\<close>

lemma TrimSpace_id:
  assumes "s \<noteq> []" "\<not> isSpace (hd s)" "\<not> isSpace (last s)"
  shows "TrimSpace s = s"
proof -
  have "dropWhile isSpace s = s" using assms(1,2) by (cases s) auto
  moreover have "dropWhile isSpace (rev s) = rev s"
    using assms(1,3) by (cases "rev s") (auto simp: hd_rev [symmetric])
  ultimately show ?thesis by (simp add: TrimSpace_def)
qed

lemma Split_nonempty: "Split s sep \<noteq> []"
  by (induction s) (auto split: list.splits)

lemma Split_none: "sep \<notin> set s \<Longrightarrow> Split s sep = [s]"
  by (induction s) auto

lemma Split_append: "Split (a @ sep # b) sep = Split a sep @ Split b sep"
proof (induction a)
  case Nil
  show ?case by simp
next
  case (Cons c a)
  obtain x xs where "Split a sep = x # xs" using Split_nonempty [of a sep] by (cases "Split a sep") auto
  with Cons show ?case by simp
qed

text \<open>The counting loop and the loop over the parts append to the indices collected so far,
  whatever these are.\<close>

lemma range_loop_prefix:
  assumes "range_loop i e acc = Some r"
  shows "range_loop i e (pre @ acc) = Some (pre @ r)"
proof -
  have "\<forall>pre. range_loop i e (pre @ acc) = Some (pre @ r)"
  proof (rule range_loop.raw_induct
      [where P = "\<lambda>i e acc r. \<forall>pre. range_loop i e (pre @ acc) = Some (pre @ r)", OF _ assms])
    fix f :: "int \<Rightarrow> int \<Rightarrow> int list \<Rightarrow> int list option" and i e acc r
    assume IH: "\<And>i e acc r. f i e acc = Some r
                  \<Longrightarrow> \<forall>pre. range_loop i e (pre @ acc) = Some (pre @ r)"
      and step: "(if i \<le> e then f (incr64 i) e (acc @ [i]) else Some acc) = Some r"
    show "\<forall>pre. range_loop i e (pre @ acc) = Some (pre @ r)"
    proof (cases "i \<le> e")
      case True
      with step have "f (incr64 i) e (acc @ [i]) = Some r" by simp
      from IH [OF this] True show ?thesis
        by (subst range_loop.simps) simp
    next
      case False
      with step have "r = acc" by simp
      with False show ?thesis by (subst range_loop.simps) simp
    qed
  qed
  then show ?thesis by simp
qed

lemma parse_parts_prefix:
  "parse_parts ps acc = Some (Inr xs) \<Longrightarrow> parse_parts ps (pre @ acc) = Some (Inr (pre @ xs))"
proof (induction ps arbitrary: acc)
  case Nil
  then show ?case by simp
next
  case (Cons p ps)
  show ?case
  proof (cases "CHR ''-'' \<in> set (TrimSpace p)")
    case False
    with Cons.prems obtain page where page: "parseInt (TrimSpace p) = Some page"
      and rest: "parse_parts ps (acc @ [page]) = Some (Inr xs)"
      by (auto simp: Let_def split: option.splits)
    from Cons.IH [OF rest] have "parse_parts ps (pre @ acc @ [page]) = Some (Inr (pre @ xs))" by simp
    with False page show ?thesis by (simp add: Let_def)
  next
    case True
    let ?rp = "Split (TrimSpace p) CHR ''-''"
    from Cons.prems True obtain s e r where
      len: "length ?rp = 2" and s: "parseInt (?rp ! 0) = Some s" and e: "parseInt (?rp ! 1) = Some e"
      and le: "s \<le> e" and loop: "range_loop s e acc = Some r"
      and rest: "parse_parts ps r = Some (Inr xs)"
      by (auto simp: Let_def split: option.splits if_splits)
    from range_loop_prefix [OF loop] have "range_loop s e (pre @ acc) = Some (pre @ r)" .
    moreover from Cons.IH [OF rest] have "parse_parts ps (pre @ r) = Some (Inr (pre @ xs))" .
    ultimately show ?thesis using True len s e le by (simp add: Let_def)
  qed
qed

lemma parse_parts_append:
  "parse_parts ps acc = Some (Inr xs) \<Longrightarrow> parse_parts (ps @ qs) acc = parse_parts qs xs"
proof (induction ps arbitrary: acc)
  case Nil
  then show ?case by simp
next
  case (Cons p ps)
  show ?case
  proof (cases "CHR ''-'' \<in> set (TrimSpace p)")
    case False
    with Cons.prems obtain page where page: "parseInt (TrimSpace p) = Some page"
      and rest: "parse_parts ps (acc @ [page]) = Some (Inr xs)"
      by (auto simp: Let_def split: option.splits)
    from Cons.IH [OF rest] False page show ?thesis by (simp add: Let_def)
  next
    case True
    let ?rp = "Split (TrimSpace p) CHR ''-''"
    from Cons.prems True obtain s e r where
      len: "length ?rp = 2" and s: "parseInt (?rp ! 0) = Some s" and e: "parseInt (?rp ! 1) = Some e"
      and le: "s \<le> e" and loop: "range_loop s e acc = Some r"
      and rest: "parse_parts ps r = Some (Inr xs)"
      by (auto simp: Let_def split: option.splits if_splits)
    from Cons.IH [OF rest] True len s e le loop show ?thesis by (simp add: Let_def)
  qed
qed

text \<open>Two expressions joined by a comma give the indices of the first followed by those
  of the second.\<close>

lemma parsePageRange_comma:
  assumes "parsePageRange p m = Some (Inr xs)" "parsePageRange q m = Some (Inr ys)"
  shows "parsePageRange (p @ '','' @ q) m = Some (Inr (xs @ ys))"
proof -
  have "parse_parts (Split p CHR '','' @ Split q CHR '','') [] = parse_parts (Split q CHR '','') xs"
    using assms(1) by (intro parse_parts_append) (simp add: parsePageRange_def)
  also have "\<dots> = Some (Inr (xs @ ys))"
    using parse_parts_prefix [of "Split q CHR '',''" "[]" ys xs] assms(2)
    by (simp add: parsePageRange_def)
  finally show ?thesis by (simp add: parsePageRange_def Split_append)
qed

text \<open>A single page number, and a range of two page numbers.\<close>

lemma parsePageRange_single:
  assumes "0 \<le> n" "n < 2 ^ 63"
  shows "parsePageRange (fmt_d n) m = Some (Inr [n])"
proof -
  note d = fmt_d_digits [OF assms(1)]
  have nc: "CHR '','' \<notin> set (fmt_d n)" "CHR ''-'' \<notin> set (fmt_d n)"
    using d isDigit_not_other(2,4) by blast+
  have "hd (fmt_d n) \<in> set (fmt_d n)" "last (fmt_d n) \<in> set (fmt_d n)" using d by simp_all
  then have "\<not> isSpace (hd (fmt_d n))" "\<not> isSpace (last (fmt_d n))"
    using d isDigit_not_other(1) by blast+
  then have t: "TrimSpace (fmt_d n) = fmt_d n" using d by (intro TrimSpace_id) simp_all
  show ?thesis
    using nc t parseInt_fmt_d [OF assms]
    by (simp add: parsePageRange_def Split_none Let_def)
qed

lemma parsePageRange_dash:
  assumes "0 \<le> a" "a \<le> b" "b < 2 ^ 63 - 1"
  shows "parsePageRange (fmt_d a @ ''-'' @ fmt_d b) m = Some (Inr [a..b])"
proof -
  let ?s = "fmt_d a @ ''-'' @ fmt_d b"
  have b0: "0 \<le> b" using assms by simp
  note da = fmt_d_digits [OF assms(1)] and db = fmt_d_digits [OF b0]
  have nca: "CHR '','' \<notin> set (fmt_d a)" "CHR ''-'' \<notin> set (fmt_d a)"
    using da isDigit_not_other(2,4) by blast+
  have ncb: "CHR '','' \<notin> set (fmt_d b)" "CHR ''-'' \<notin> set (fmt_d b)"
    using db isDigit_not_other(2,4) by blast+
  have comma: "Split ?s CHR '','' = [?s]" using nca ncb by (intro Split_none) simp
  have "hd ?s = hd (fmt_d a)" "last ?s = last (fmt_d b)" using da db by simp_all
  moreover have "hd (fmt_d a) \<in> set (fmt_d a)" "last (fmt_d b) \<in> set (fmt_d b)"
    using da db by simp_all
  then have "\<not> isSpace (hd (fmt_d a))" "\<not> isSpace (last (fmt_d b))"
    using da db isDigit_not_other(1) by blast+
  ultimately have t: "TrimSpace ?s = ?s" by (intro TrimSpace_id) simp_all
  have dash: "Split ?s CHR ''-'' = [fmt_d a, fmt_d b]"
    using Split_append [of "fmt_d a" "CHR ''-''" "fmt_d b"] nca ncb by (simp add: Split_none)
  have pa: "parseInt (fmt_d a) = Some a" using assms by (intro parseInt_fmt_d) simp_all
  have pb: "parseInt (fmt_d b) = Some b" using assms b0 by (intro parseInt_fmt_d) simp_all
  have loop: "range_loop a b [] = Some [a..b]" using range_loop_closed [OF assms(3), of a "[]"] by simp
  have "parse_parts [?s] [] = Some (Inr [a..b])"
    using t dash pa pb loop assms(2) by (simp add: Let_def)
  then show ?thesis by (simp only: parsePageRange_def comma)
qed

text \<open>
  Claim C8. A dash range \<open>a-b\<close> of two page numbers in decimal, with
  \<open>0 \<le> a \<le> b\<close> below the largest 64-bit integer, is parsed to the indices \<open>a, \<dots>, b\<close>,
  both ends included; a single page number is parsed to itself; two expressions joined
  by a comma are parsed to the indices of the first followed by those of the second; and
  when all parsed indices lie in the collection, the download selects the sub-items at
  these positions in the order parsed. So the expression \<open>1-2,4\<close> is parsed to 1, 2, 4,
  and against a collection of five sub-items it selects the first, the second and the
  fourth, in that order: the sub-items of the ordinal indices 1, 2 and 4 when the
  collection is numbered 1 to 5.
\<close>

theorem page_range_selection:
  "(0 \<le> a \<and> a \<le> b \<and> b < 2 ^ 63 - 1
      \<longrightarrow> parsePageRange (fmt_d a @ ''-'' @ fmt_d b) m = Some (Inr [a..b]))
   \<and> (0 \<le> n \<and> n < 2 ^ 63 \<longrightarrow> parsePageRange (fmt_d n) m = Some (Inr [n]))
   \<and> (parsePageRange p m = Some (Inr xs) \<and> parsePageRange q m = Some (Inr ys)
      \<longrightarrow> parsePageRange (p @ '','' @ q) m = Some (Inr (xs @ ys)))
   \<and> (pages \<noteq> ''all'' \<and> parsePageRange pages m = Some (Inr indices)
        \<and> (\<forall>idx\<in>set indices. 1 \<le> idx \<and> idx \<le> int (length (Episodes videoInfo)))
      \<longrightarrow> episodesToDownload videoInfo pages
            = Some (Inr (map (\<lambda>idx. Episodes videoInfo ! nat (idx - 1)) indices)))
   \<and> parsePageRange ''1-2,4'' 5 = Some (Inr [1, 2, 4])
   \<and> (length (Episodes videoInfo) = 5
      \<longrightarrow> episodesToDownload videoInfo ''1-2,4''
            = Some (Inr [Episodes videoInfo ! 0, Episodes videoInfo ! 1, Episodes videoInfo ! 3])
        \<and> (map ep_Index (Episodes videoInfo) = [1, 2, 3, 4, 5]
            \<longrightarrow> map ep_Index [Episodes videoInfo ! 0, Episodes videoInfo ! 1, Episodes videoInfo ! 3]
                  = [1, 2, 4]))"
proof (intro conjI impI)
  assume "0 \<le> a \<and> a \<le> b \<and> b < 2 ^ 63 - 1"
  then show "parsePageRange (fmt_d a @ ''-'' @ fmt_d b) m = Some (Inr [a..b])"
    by (intro parsePageRange_dash) simp_all
next
  assume "0 \<le> n \<and> n < 2 ^ 63"
  then show "parsePageRange (fmt_d n) m = Some (Inr [n])"
    by (intro parsePageRange_single) simp_all
next
  assume "parsePageRange p m = Some (Inr xs) \<and> parsePageRange q m = Some (Inr ys)"
  then show "parsePageRange (p @ '','' @ q) m = Some (Inr (xs @ ys))"
    by (intro parsePageRange_comma) simp_all
next
  assume a: "pages \<noteq> ''all'' \<and> parsePageRange pages m = Some (Inr indices)
        \<and> (\<forall>idx\<in>set indices. 1 \<le> idx \<and> idx \<le> int (length (Episodes videoInfo)))"
  then have "parsePageRange pages (int (length (Episodes videoInfo))) = Some (Inr indices)"
    by (simp add: parsePageRange_def)
  moreover have "filter (\<lambda>idx. 0 < idx \<and> idx \<le> int (length (Episodes videoInfo))) indices = indices"
    using a by (intro filter_True) auto
  ultimately show "episodesToDownload videoInfo pages
            = Some (Inr (map (\<lambda>idx. Episodes videoInfo ! nat (idx - 1)) indices))"
    using a by (simp add: episodesToDownload_def select_loop_eq)
next
  show "parsePageRange ''1-2,4'' 5 = Some (Inr [1, 2, 4])" by (rule parse_example)
next
  assume len: "length (Episodes videoInfo) = 5"
  then show "episodesToDownload videoInfo ''1-2,4''
           = Some (Inr [Episodes videoInfo ! 0, Episodes videoInfo ! 1, Episodes videoInfo ! 3])"
    by (simp add: episodesToDownload_def parse_example)
  assume "map ep_Index (Episodes videoInfo) = [1, 2, 3, 4, 5]"
  then have "map ep_Index (Episodes videoInfo) ! i = [1, 2, 3, 4, 5] ! i" for i by simp
  from this [of 0] this [of 1] this [of 3] len
  show "map ep_Index [Episodes videoInfo ! 0, Episodes videoInfo ! 1, Episodes videoInfo ! 3] = [1, 2, 4]"
    by simp
qed

text \<open>The range 3 to 6, the page 8, both joined, and the collection of five parts.\<close>

theorem page_range_selection_witness:
  "parsePageRange ''3-6'' 9 = Some (Inr [3, 4, 5, 6])
    \<and> parsePageRange ''8'' 9 = Some (Inr [8])
    \<and> parsePageRange ''3-6,8'' 9 = Some (Inr [3, 4, 5, 6, 8])
    \<and> length (Episodes five_part_course) = 5
    \<and> episodesToDownload five_part_course ''1-2,4''
        = Some (Inr [course_episode 1, course_episode 2, course_episode 4])"
proof -
  note T = page_range_selection [where a = 3 and b = 6 and m = 9 and n = 8 and p = "''3-6''"
      and q = "''8''" and xs = "[3, 4, 5, 6]" and ys = "[8]" and videoInfo = five_part_course
      and pages = "''1-2,4''" and indices = "[1, 2, 4]"]
  have f: "fmt_d 3 = ''3''" "fmt_d 6 = ''6''" "fmt_d 8 = ''8''" by code_simp+
  have u: "[3..6] = [3, 4, 5, 6 :: int]" by (simp add: upto.simps)
  have r1: "parsePageRange ''3-6'' 9 = Some (Inr [3, 4, 5, 6])" using T f u by simp
  have r2: "parsePageRange ''8'' 9 = Some (Inr [8])" using T f by simp
  have r3: "parsePageRange ''3-6,8'' 9 = Some (Inr [3, 4, 5, 6, 8])" using T r1 r2 by simp
  have h: "length (Episodes five_part_course) = 5" by (simp add: five_part_course_def)
  have "episodesToDownload five_part_course ''1-2,4''
        = Some (Inr [course_episode 1, course_episode 2, course_episode 4])"
    using T h by (simp add: five_part_course_def)
  with r1 r2 r3 h show ?thesis by simp
qed

text \<open>
  Claim C10. The parser of the expression does not look at the size of the collection,
  and for an expression other than \<open>all\<close> that it accepts, the episodes to download are
  those of the parsed indices that lie in 1..(number of sub-items), in the order parsed:
  the other indices are left out and no error is returned.
\<close>

theorem out_of_range_indices_dropped:
  "parsePageRange pages m = parsePageRange pages m'
   \<and> (pages \<noteq> ''all'' \<and> parsePageRange pages m = Some (Inr indices)
        \<longrightarrow> episodesToDownload videoInfo pages
              = Some (Inr (map (\<lambda>idx. Episodes videoInfo ! nat (idx - 1))
                            (filter (\<lambda>idx. 0 < idx \<and> idx \<le> int (length (Episodes videoInfo))) indices))))"
proof (intro conjI impI)
  show "parsePageRange pages m = parsePageRange pages m'" by (simp add: parsePageRange_def)
  assume a: "pages \<noteq> ''all'' \<and> parsePageRange pages m = Some (Inr indices)"
  then have "parsePageRange pages (int (length (Episodes videoInfo))) = Some (Inr indices)"
    by (simp add: parsePageRange_def)
  with a show "episodesToDownload videoInfo pages
              = Some (Inr (map (\<lambda>idx. Episodes videoInfo ! nat (idx - 1))
                            (filter (\<lambda>idx. 0 < idx \<and> idx \<le> int (length (Episodes videoInfo))) indices)))"
    by (simp add: episodesToDownload_def select_loop_eq)
qed

text \<open>Against five sub-items the indices 0 and 9 are parsed and then left out.\<close>

theorem out_of_range_indices_dropped_witness:
  "parsePageRange ''0,2,9'' 5 = Some (Inr [0, 2, 9])
    \<and> episodesToDownload five_part_course ''0,2,9'' = Some (Inr [course_episode 2])"
proof -
  have p: "parsePageRange ''0,2,9'' 5 = Some (Inr [0, 2, 9])"
    by (simp add: parsePageRange_def TrimSpace_def isSpace_def parseInt_def isDigit_def
          digits_value_def)
  have ne: "''0,2,9'' \<noteq> ''all''" by simp
  from out_of_range_indices_dropped [of "''0,2,9''" 5 5 "[0, 2, 9]" five_part_course] p ne
  show ?thesis by (simp add: five_part_course_def)
qed

end
